theory Spec2Isabelle
  imports Main
begin

section \<open>Values exchanged by the blocking server\<close>

text \<open>
  The model follows \<^verbatim>\<open>pytest_httpserver/blocking_http_server.py\<close>.
  A werkzeug \<^verbatim>\<open>Request\<close> is used by the source only as a dictionary key and as an
  argument of the matcher; it hashes and compares by object identity, so a request is
  represented by its identity.
\<close>

type_synonym request = nat

text \<open>
  The three f-strings of the source, kept as the sequence of their literal and
  interpolated parts.
\<close>

datatype ('m, 'd) part =
    Lit string
  | Matcher_repr 'm
  | Diff_repr "'d list"
  | Request_repr request

text \<open>
  The exceptions that the source and the \<^verbatim>\<open>queue.Queue\<close> operations it calls can raise.
\<close>

datatype ('m, 'd) exn =
    AssertionError "('m, 'd) part list"
  | KeyError request
  | Empty
  | Full
  | ValueError

section \<open>The standard queue\<close>

text \<open>
  \<^verbatim>\<open>queue.Queue(maxsize=0)\<close>: a FIFO with a capacity, unbounded when the capacity is
  not positive. \<^verbatim>\<open>put_nowait\<close> never waits and raises \<^verbatim>\<open>Full\<close> when a bounded queue is
  full. \<^verbatim>\<open>get(timeout=t)\<close> first rejects a negative timeout with \<^verbatim>\<open>ValueError\<close>, then
  waits until an item is there or the deadline has passed; \<open>Queue_get\<close> is the result
  at the moment the wait ends: the head of the queue, or \<^verbatim>\<open>Empty\<close> when the deadline
  passed on an empty queue.
\<close>

record 'a queue =
  maxsize :: int
  items :: "'a list"

definition Queue :: "'a queue" where
  "Queue = \<lparr>maxsize = 0, items = []\<rparr>"

definition Queue_put_nowait :: "'a \<Rightarrow> 'a queue \<Rightarrow> ('m, 'd) exn + 'a queue" where
  "Queue_put_nowait x q =
     (if 0 < maxsize q \<and> maxsize q \<le> int (length (items q)) then Inl Full
      else Inr (q\<lparr>items := items q @ [x]\<rparr>))"

definition Queue_get :: "int \<Rightarrow> 'a queue \<Rightarrow> ('m, 'd) exn + ('a \<times> 'a queue)" where
  "Queue_get t q =
     (if t < 0 then Inl ValueError
      else case items q of
             [] \<Rightarrow> Inl Empty
           | x # xs \<Rightarrow> Inr (x, q\<lparr>items := xs\<rparr>))"

section \<open>Server state and object store\<close>

text \<open>
  The attributes of \<^verbatim>\<open>BlockingHttpServer\<close> (\<open>timeout\<close>, \<open>request_queue\<close>,
  \<open>request_handlers\<close>), the \<open>assertions\<close> list of its base class, and the two kinds
  of objects the methods allocate: the queue of handlers that \<^verbatim>\<open>dispatch\<close> stores in
  the dictionary, and the \<^verbatim>\<open>BlockingRequestHandler\<close>, which is nothing but its
  \<open>response_queue\<close>. An object is referred to by its index in the store; the
  dictionary holds references, so that a thread waiting on a queue keeps waiting on
  that object when the dictionary entry is replaced or deleted.
\<close>

record ('m, 'd, 'resp) state =
  timeout :: int
  request_queue :: "request queue"
  request_handlers :: "request \<rightharpoonup> nat"
  assertions :: "('m, 'd) exn list"
  handler_queues :: "nat queue list"
  response_queues :: "'resp queue list"

text \<open>\<^verbatim>\<open>BlockingHttpServer.__init__(self, timeout: int = 30, **kwargs)\<close>\<close>

definition BlockingHttpServer_init :: "int option \<Rightarrow> ('m, 'd, 'resp) state" where
  "BlockingHttpServer_init t =
     \<lparr>timeout = (case t of None \<Rightarrow> 30 | Some v \<Rightarrow> v),
      request_queue = Queue,
      request_handlers = Map.empty,
      assertions = [],
      handler_queues = [],
      response_queues = []\<rparr>"

text \<open>
  Modelled from the spec: \<^verbatim>\<open>HttpServerBase.add_assertion\<close> is not part of the source
  file; the spec describes it as recording the failure in a shared, inspectable error
  sink, which is the list \<open>assertions\<close>.
\<close>

definition add_assertion ::
  "('m, 'd) exn \<Rightarrow> ('m, 'd, 'resp) state \<Rightarrow> ('m, 'd, 'resp) state" where
  "add_assertion e s = s\<lparr>assertions := assertions s @ [e]\<rparr>"

text \<open>\<^verbatim>\<open>BlockingRequestHandler.__init__\<close>: a new handler with an empty response queue.\<close>

definition BlockingRequestHandler_init ::
  "('m, 'd, 'resp) state \<Rightarrow> nat \<times> ('m, 'd, 'resp) state" where
  "BlockingRequestHandler_init s =
     (length (response_queues s), s\<lparr>response_queues := response_queues s @ [Queue]\<rparr>)"

text \<open>\<^verbatim>\<open>BlockingRequestHandler.respond_with_response\<close> on the handler \<open>h\<close>.\<close>

definition respond_with_response ::
  "'resp \<Rightarrow> nat \<Rightarrow> ('m, 'd, 'resp) state \<Rightarrow> ('m, 'd) exn + ('m, 'd, 'resp) state" where
  "respond_with_response response h s =
     (case Queue_put_nowait response (response_queues s ! h) of
        Inl e \<Rightarrow> Inl e
      | Inr q \<Rightarrow> Inr (s\<lparr>response_queues := (response_queues s)[h := q]\<rparr>))"

section \<open>The two methods, one shared-memory access at a time\<close>

text \<open>
  A call of \<^verbatim>\<open>dispatch\<close> or \<^verbatim>\<open>assert_request\<close> runs on its own thread, and other
  threads run between its accesses to the shared objects. A thread is the point its
  call has reached together with the local variables it holds there:

  \<^item> \<open>D_start request\<close>: \<^verbatim>\<open>dispatch(request)\<close> has been called;
  \<^item> \<open>D_registered\<close>: line 139 is done;
  \<^item> \<open>D_published\<close>: line 141 is done;
  \<^item> \<open>D_await_handler request q t\<close>: inside \<^verbatim>\<open>get(timeout=t)\<close> of line 144, on the
    queue object \<open>q\<close> found in the dictionary;
  \<^item> \<open>D_await_response request h t\<close>: inside \<^verbatim>\<open>get(timeout=t)\<close> of line 149, on the
    response queue of the handler \<open>h\<close>;
  \<^item> \<open>D_finally request out\<close>: the \<^verbatim>\<open>try\<close> block is left with the pending outcome
    \<open>out\<close> (\<open>Inr\<close> a returned response, \<open>Inl\<close> a raised exception);
  \<^item> \<open>D_done request out\<close>: the call has ended with \<open>out\<close>;
  \<^item> \<open>A_wait matcher t\<close>: inside \<^verbatim>\<open>get(timeout=t)\<close> of line 110;
  \<^item> \<open>A_popped matcher request\<close>: line 110 has returned \<open>request\<close>;
  \<^item> \<open>A_delivered matcher request h diff\<close>: line 118 is done;
  \<^item> \<open>A_done matcher request out\<close>: the call has ended with \<open>out\<close> (\<open>Inr\<close> the
    returned handler), \<open>request\<close> being the request it popped, if it popped one.

  A step is one operation on a shared queue or on the dictionary, with the work on the
  thread's own variables around it. Line 118 is one step: the dictionary lookup and the
  \<^verbatim>\<open>put_nowait\<close> on the queue it finds; a deletion of the entry between the two
  would not change what either thread sees, since the queue object outlives its entry.
\<close>

datatype ('m, 'd, 'resp) thread =
    D_start request
  | D_registered request
  | D_published request
  | D_await_handler request nat int
  | D_await_response request nat int
  | D_finally request "('m, 'd) exn + 'resp"
  | D_done request "('m, 'd) exn + 'resp"
  | A_wait 'm int
  | A_popped 'm request
  | A_delivered 'm request nat "'d list"
  | A_done 'm "request option" "('m, 'd) exn + nat"

definition no_response :: "request \<Rightarrow> ('m, 'd) exn" where
  "no_response r = AssertionError [Lit ''No response for request: '', Request_repr r]"

definition timed_out :: "'m \<Rightarrow> ('m, 'd) exn" where
  "timed_out m = AssertionError [Lit ''Waiting for request '', Matcher_repr m, Lit '' timed out'']"

definition does_not_match :: "'m \<Rightarrow> 'd list \<Rightarrow> ('m, 'd) exn" where
  "does_not_match m diff =
     AssertionError [Lit ''Request '', Matcher_repr m, Lit '' does not match: '', Diff_repr diff]"

text \<open>
  One step of \<^verbatim>\<open>dispatch\<close>. \<open>respond_nohandler\<close> stands for the method of that name
  of the base class, which is not part of the source file: the response it builds for
  a request.
\<close>

fun dispatch ::
  "(request \<Rightarrow> 'resp) \<Rightarrow> ('m, 'd, 'resp) state \<Rightarrow> ('m, 'd, 'resp) thread \<Rightarrow>
   ('m, 'd, 'resp) state \<times> ('m, 'd, 'resp) thread" where
  "dispatch respond_nohandler s (D_start r) =
     (s\<lparr>request_handlers := (request_handlers s)(r \<mapsto> length (handler_queues s)),
        handler_queues := handler_queues s @ [Queue]\<rparr>,
      D_registered r)"
| "dispatch respond_nohandler s (D_registered r) =
     (case Queue_put_nowait r (request_queue s) of
        Inl e \<Rightarrow> (s, D_finally r (Inl e))
      | Inr q \<Rightarrow> (s\<lparr>request_queue := q\<rparr>, D_published r))"
| "dispatch respond_nohandler s (D_published r) =
     (case request_handlers s r of
        None \<Rightarrow> (s, D_finally r (Inl (KeyError r)))
      | Some q \<Rightarrow> (s, D_await_handler r q (timeout s)))"
| "dispatch respond_nohandler s (D_await_handler r q t) =
     (case Queue_get t (handler_queues s ! q) of
        Inl e \<Rightarrow>
          if e = Empty then (s, D_finally r (Inr (respond_nohandler r)))
          else (s, D_finally r (Inl e))
      | Inr (h, q') \<Rightarrow>
          (s\<lparr>handler_queues := (handler_queues s)[q := q']\<rparr>,
           D_await_response r h (timeout s)))"
| "dispatch respond_nohandler s (D_await_response r h t) =
     (case Queue_get t (response_queues s ! h) of
        Inl e \<Rightarrow>
          if e = Empty then (add_assertion (no_response r) s, D_finally r (Inl (no_response r)))
          else (s, D_finally r (Inl e))
      | Inr (response, q') \<Rightarrow>
          (s\<lparr>response_queues := (response_queues s)[h := q']\<rparr>, D_finally r (Inr response)))"
| "dispatch respond_nohandler s (D_finally r out) =
     (case request_handlers s r of
        None \<Rightarrow> (s, D_done r (Inl (KeyError r)))
      | Some q \<Rightarrow> (s\<lparr>request_handlers := (request_handlers s)(r := None)\<rparr>, D_done r out))"
| "dispatch respond_nohandler s t = (s, t)"

text \<open>
  One step of \<^verbatim>\<open>assert_request\<close>. \<open>difference\<close> stands for \<^verbatim>\<open>matcher.difference\<close>,
  which is not part of the source file; the matcher is the one that
  \<^verbatim>\<open>create_matcher\<close> built from the arguments of the call.
\<close>

fun assert_request ::
  "(request \<Rightarrow> 'resp) \<Rightarrow> ('m \<Rightarrow> request \<Rightarrow> 'd list) \<Rightarrow> ('m, 'd, 'resp) state \<Rightarrow>
   ('m, 'd, 'resp) thread \<Rightarrow> ('m, 'd, 'resp) state \<times> ('m, 'd, 'resp) thread" where
  "assert_request respond_nohandler difference s (A_wait m t) =
     (case Queue_get t (request_queue s) of
        Inl e \<Rightarrow>
          if e = Empty then (s, A_done m None (Inl (timed_out m)))
          else (s, A_done m None (Inl e))
      | Inr (r, q') \<Rightarrow> (s\<lparr>request_queue := q'\<rparr>, A_popped m r))"
| "assert_request respond_nohandler difference s (A_popped m r) =
     (let diff = difference m r;
          (h, s1) = BlockingRequestHandler_init s
      in case request_handlers s1 r of
           None \<Rightarrow> (s1, A_done m (Some r) (Inl (KeyError r)))
         | Some q \<Rightarrow>
             (case Queue_put_nowait h (handler_queues s1 ! q) of
                Inl e \<Rightarrow> (s1, A_done m (Some r) (Inl e))
              | Inr q' \<Rightarrow>
                  (s1\<lparr>handler_queues := (handler_queues s1)[q := q']\<rparr>,
                   A_delivered m r h diff)))"
| "assert_request respond_nohandler difference s (A_delivered m r h diff) =
     (if diff \<noteq> [] then
        (case respond_with_response (respond_nohandler r) h s of
           Inl e \<Rightarrow> (s, A_done m (Some r) (Inl e))
         | Inr s' \<Rightarrow> (s', A_done m (Some r) (Inl (does_not_match m diff))))
      else (s, A_done m (Some r) (Inr h)))"
| "assert_request respond_nohandler difference s t = (s, t)"

section \<open>Threads running side by side\<close>

text \<open>
  The calls made on a server, each on a thread of its own. The timeout of
  \<^verbatim>\<open>assert_request\<close> is a keyword argument with the default 30.
\<close>

datatype 'm call =
    Dispatch request
  | Assert_request 'm "int option"

fun start :: "'m call \<Rightarrow> ('m, 'd, 'resp) thread" where
  "start (Dispatch r) = D_start r"
| "start (Assert_request m t) = A_wait m (case t of None \<Rightarrow> 30 | Some v \<Rightarrow> v)"

fun is_dispatch :: "('m, 'd, 'resp) thread \<Rightarrow> bool" where
  "is_dispatch (A_wait m t) = False"
| "is_dispatch (A_popped m r) = False"
| "is_dispatch (A_delivered m r h diff) = False"
| "is_dispatch (A_done m r out) = False"
| "is_dispatch t = True"

definition thread_step ::
  "(request \<Rightarrow> 'resp) \<Rightarrow> ('m \<Rightarrow> request \<Rightarrow> 'd list) \<Rightarrow> ('m, 'd, 'resp) state \<Rightarrow>
   ('m, 'd, 'resp) thread \<Rightarrow> ('m, 'd, 'resp) state \<times> ('m, 'd, 'resp) thread" where
  "thread_step respond_nohandler difference s t =
     (if is_dispatch t then dispatch respond_nohandler s t
      else assert_request respond_nohandler difference s t)"

text \<open>
  What happens next: the thread \<open>i\<close> makes its next step, or the test calls
  \<^verbatim>\<open>respond_with_response\<close> on a handler that exists. A thread inside a timed
  \<^verbatim>\<open>get\<close> is scheduled when its wait ends; while it waits, the others are.
\<close>

datatype 'resp action =
    Step nat
  | Respond nat 'resp

type_synonym ('m, 'd, 'resp) config = "('m, 'd, 'resp) state \<times> ('m, 'd, 'resp) thread list"

fun act ::
  "(request \<Rightarrow> 'resp) \<Rightarrow> ('m \<Rightarrow> request \<Rightarrow> 'd list) \<Rightarrow> 'resp action \<Rightarrow>
   ('m, 'd, 'resp) config \<Rightarrow> ('m, 'd, 'resp) config" where
  "act respond_nohandler difference (Step i) (s, ts) =
     (if i < length ts then
        (case thread_step respond_nohandler difference s (ts ! i) of
           (s', t') \<Rightarrow> (s', ts[i := t']))
      else (s, ts))"
| "act respond_nohandler difference (Respond h response) (s, ts) =
     (if h < length (response_queues s) then
        (case respond_with_response response h s of
           Inl e \<Rightarrow> (s, ts)
         | Inr s' \<Rightarrow> (s', ts))
      else (s, ts))"

fun run ::
  "(request \<Rightarrow> 'resp) \<Rightarrow> ('m \<Rightarrow> request \<Rightarrow> 'd list) \<Rightarrow> 'resp action list \<Rightarrow>
   ('m, 'd, 'resp) config \<Rightarrow> ('m, 'd, 'resp) config" where
  "run respond_nohandler difference [] c = c"
| "run respond_nohandler difference (a # as) c =
     run respond_nohandler difference as (act respond_nohandler difference a c)"

definition init :: "int option \<Rightarrow> 'm call list \<Rightarrow> ('m, 'd, 'resp) config" where
  "init t calls = (BlockingHttpServer_init t, map start calls)"

section \<open>What a thread holds, and what every run keeps true\<close>

text \<open>
  Observations of a thread: the request a \<^verbatim>\<open>dispatch\<close> call was given, the request an
  \<^verbatim>\<open>assert_request\<close> call has popped, whether a \<^verbatim>\<open>dispatch\<close> call is between its
  line 139 and the end of its \<^verbatim>\<open>finally\<close> block, and whether it is past line 141.
  The predicates after them are the invariants of the runs: about the dictionary, about
  the request queue, about the object store and about the timeouts of the waits.
\<close>

fun request_of :: "('m, 'd, 'resp) thread \<Rightarrow> request option" where
  "request_of (D_start r) = Some r"
| "request_of (D_registered r) = Some r"
| "request_of (D_published r) = Some r"
| "request_of (D_await_handler r q t) = Some r"
| "request_of (D_await_response r h t) = Some r"
| "request_of (D_finally r out) = Some r"
| "request_of (D_done r out) = Some r"
| "request_of t = None"

fun popped :: "('m, 'd, 'resp) thread \<Rightarrow> request option" where
  "popped (A_popped m r) = Some r"
| "popped (A_delivered m r h diff) = Some r"
| "popped (A_done m r out) = r"
| "popped t = None"

fun registered :: "('m, 'd, 'resp) thread \<Rightarrow> bool" where
  "registered (D_registered r) = True"
| "registered (D_published r) = True"
| "registered (D_await_handler r q t) = True"
| "registered (D_await_response r h t) = True"
| "registered (D_finally r out) = True"
| "registered t = False"

fun published :: "('m, 'd, 'resp) thread \<Rightarrow> bool" where
  "published (D_published r) = True"
| "published (D_await_handler r q t) = True"
| "published (D_await_response r h t) = True"
| "published (D_finally r out) = True"
| "published (D_done r out) = True"
| "published t = False"

definition unique_requests :: "('m, 'd, 'resp) thread list \<Rightarrow> bool" where
  "unique_requests ts \<longleftrightarrow>
     (\<forall>i<length ts. \<forall>j<length ts. \<forall>r.
        request_of (ts ! i) = Some r \<longrightarrow> request_of (ts ! j) = Some r \<longrightarrow> i = j)"

definition reg_inv :: "('m, 'd, 'resp) config \<Rightarrow> bool" where
  "reg_inv c \<longleftrightarrow>
     (\<forall>i<length (snd c). \<forall>r. registered (snd c ! i) \<longrightarrow> request_of (snd c ! i) = Some r \<longrightarrow>
        request_handlers (fst c) r \<noteq> None)"

definition dom_inv :: "('m, 'd, 'resp) config \<Rightarrow> bool" where
  "dom_inv c \<longleftrightarrow>
     (\<forall>r. request_handlers (fst c) r \<noteq> None \<longrightarrow>
        (\<exists>i<length (snd c). registered (snd c ! i) \<and> request_of (snd c ! i) = Some r))"

definition visible :: "('m, 'd, 'resp) config \<Rightarrow> request \<Rightarrow> bool" where
  "visible c r \<longleftrightarrow>
     r \<in> set (items (request_queue (fst c))) \<or> (\<exists>i<length (snd c). popped (snd c ! i) = Some r)"

definition vis_inv :: "('m, 'd, 'resp) config \<Rightarrow> bool" where
  "vis_inv c \<longleftrightarrow>
     (\<forall>r. visible c r \<longrightarrow>
        (\<exists>j<length (snd c). published (snd c ! j) \<and> request_of (snd c ! j) = Some r))"

definition once_inv :: "('m, 'd, 'resp) config \<Rightarrow> bool" where
  "once_inv c \<longleftrightarrow>
     distinct (items (request_queue (fst c)))
     \<and> (\<forall>i<length (snd c). \<forall>r. popped (snd c ! i) = Some r \<longrightarrow>
          r \<notin> set (items (request_queue (fst c))))
     \<and> (\<forall>i<length (snd c). \<forall>j<length (snd c). \<forall>r.
          popped (snd c ! i) = Some r \<longrightarrow> popped (snd c ! j) = Some r \<longrightarrow> i = j)"

fun refs_ok :: "('m, 'd, 'resp) state \<Rightarrow> ('m, 'd, 'resp) thread \<Rightarrow> bool" where
  "refs_ok s (D_await_handler r q t) \<longleftrightarrow> q < length (handler_queues s)"
| "refs_ok s (D_await_response r h t) \<longleftrightarrow> h < length (response_queues s)"
| "refs_ok s (A_delivered m r h diff) \<longleftrightarrow> h < length (response_queues s)"
| "refs_ok s (A_done m r (Inr h)) \<longleftrightarrow> h < length (response_queues s)"
| "refs_ok s t \<longleftrightarrow> True"

definition store_ok :: "('m, 'd, 'resp) state \<Rightarrow> bool" where
  "store_ok s \<longleftrightarrow>
     maxsize (request_queue s) = 0
     \<and> (\<forall>q<length (handler_queues s). maxsize (handler_queues s ! q) = 0)
     \<and> (\<forall>h<length (response_queues s). maxsize (response_queues s ! h) = 0)
     \<and> (\<forall>r q. request_handlers s r = Some q \<longrightarrow> q < length (handler_queues s))
     \<and> (\<forall>q<length (handler_queues s). \<forall>h \<in> set (items (handler_queues s ! q)).
          h < length (response_queues s))"

fun dispatched :: "'m call list \<Rightarrow> request list" where
  "dispatched [] = []"
| "dispatched (Dispatch r # cs) = r # dispatched cs"
| "dispatched (Assert_request m t # cs) = dispatched cs"

fun waits_with :: "int \<Rightarrow> ('m, 'd, 'resp) thread \<Rightarrow> bool" where
  "waits_with x (D_await_handler r q t) \<longleftrightarrow> t = x"
| "waits_with x (D_await_response r h t) \<longleftrightarrow> t = x"
| "waits_with x t \<longleftrightarrow> True"

definition good :: "('m, 'd, 'resp) config \<Rightarrow> bool" where
  "good c \<longleftrightarrow> unique_requests (snd c) \<and> reg_inv c \<and> dom_inv c \<and> vis_inv c \<and> once_inv c"

definition sound :: "('m, 'd, 'resp) config \<Rightarrow> bool" where
  "sound c \<longleftrightarrow> store_ok (fst c) \<and> (\<forall>i<length (snd c). refs_ok (fst c) (snd c ! i))"

definition timed :: "int \<Rightarrow> ('m, 'd, 'resp) config \<Rightarrow> bool" where
  "timed x c \<longleftrightarrow> timeout (fst c) = x \<and> (\<forall>i<length (snd c). waits_with x (snd c ! i))"

text \<open>
  A base class for the examples: every request gets the response 500 when nothing
  handles it, and a matcher is either the one that accepts every request or the one
  that reports a difference in the URI for every request.
\<close>

definition example_nohandler :: "request \<Rightarrow> nat" where
  "example_nohandler r = 500"

definition example_difference :: "bool \<Rightarrow> request \<Rightarrow> string list" where
  "example_difference m r = (if m then [] else [''uri''])"

section \<open>Effect of one step\<close>

lemmas step_defs = thread_step_def Queue_put_nowait_def Queue_get_def
  BlockingRequestHandler_init_def respond_with_response_def add_assertion_def

lemma request_of_step:
  "request_of (snd (thread_step nh dif s t)) = request_of t"
  by (cases t) (auto simp: step_defs Let_def split: sum.splits list.splits option.splits if_splits)

lemma published_step:
  "published t \<Longrightarrow> published (snd (thread_step nh dif s t))"
  by (cases t) (auto simp: step_defs Let_def split: sum.splits list.splits option.splits if_splits)


lemma queue_step:
  assumes "thread_step nh dif s t = (s', t')"
  shows "(items (request_queue s') = items (request_queue s) \<and> popped t' = popped t)
       \<or> (\<exists>r. t = D_registered r \<and> t' = D_published r
              \<and> items (request_queue s') = items (request_queue s) @ [r])
       \<or> (\<exists>m x r. t = A_wait m x \<and> t' = A_popped m r
              \<and> items (request_queue s) = r # items (request_queue s'))"
  using assms
  by (cases t) (auto simp: step_defs Let_def split: sum.splits list.splits option.splits if_splits)

lemma registry_step:
  assumes "thread_step nh dif s t = (s', t')"
  shows "(request_handlers s' = request_handlers s \<and> (registered t' \<longrightarrow> registered t)
           \<and> (registered t \<longrightarrow> registered t' \<or> (\<exists>r. request_of t = Some r \<and> request_handlers s r = None)))
       \<or> (\<exists>r q. t = D_start r \<and> t' = D_registered r
              \<and> request_handlers s' = (request_handlers s)(r \<mapsto> q))
       \<or> (\<exists>r out. t = D_finally r out \<and> t' = D_done r out
              \<and> request_handlers s' = (request_handlers s)(r := None))"
  using assms
  by (cases t) (auto simp: step_defs Let_def split: sum.splits list.splits option.splits if_splits)

lemma unique_requests_update:
  "unique_requests ts \<Longrightarrow> request_of t' = request_of (ts ! i) \<Longrightarrow> unique_requests (ts[i := t'])"
  unfolding unique_requests_def
  by (metis length_list_update nth_list_update_eq nth_list_update_neq)

lemma reg_inv_step:
  assumes u: "unique_requests ts" and i: "i < length ts"
    and st: "thread_step nh dif s (ts ! i) = (s', t')" and inv: "reg_inv (s, ts)"
  shows "reg_inv (s', ts[i := t'])"
proof -
  have ro: "request_of t' = request_of (ts ! i)"
    using request_of_step [of nh dif s "ts ! i"] st by simp
  show ?thesis
    unfolding reg_inv_def
  proof (intro allI impI, simp only: fst_conv snd_conv length_list_update)
    fix k r
    assume k: "k < length ts" and rg: "registered (ts[i := t'] ! k)"
      and rq: "request_of (ts[i := t'] ! k) = Some r"
    from registry_step [OF st] show "request_handlers s' r \<noteq> None"
    proof (elim disjE exE conjE)
      assume same: "request_handlers s' = request_handlers s"
        and bk: "registered t' \<longrightarrow> registered (ts ! i)"
      have "registered (ts ! k) \<and> request_of (ts ! k) = Some r"
        using k i rg rq bk ro by (cases "k = i") auto
      then show ?thesis using inv k same by (auto simp: reg_inv_def)
    next
      fix r0 q
      assume t: "ts ! i = D_start r0" and t': "t' = D_registered r0"
        and upd: "request_handlers s' = (request_handlers s)(r0 \<mapsto> q)"
      show ?thesis
      proof (cases "k = i")
        case True
        then show ?thesis using i rq t' upd by auto
      next
        case False
        then have "request_handlers s r \<noteq> None"
          using inv k rg rq by (auto simp: reg_inv_def)
        then show ?thesis using upd by auto
      qed
    next
      fix r0 out
      assume t: "ts ! i = D_finally r0 out" and t': "t' = D_done r0 out"
        and upd: "request_handlers s' = (request_handlers s)(r0 := None)"
      have ki: "k \<noteq> i" using rg t' i by auto
      then have old: "registered (ts ! k)" "request_of (ts ! k) = Some r"
        using rg rq by auto
      have "r \<noteq> r0"
        using u i k ki t old(2) unfolding unique_requests_def by (metis request_of.simps(6))
      moreover have "request_handlers s r \<noteq> None"
        using inv k old by (auto simp: reg_inv_def)
      ultimately show ?thesis using upd by auto
    qed
  qed
qed

lemma dom_inv_step:
  assumes i: "i < length ts"
    and st: "thread_step nh dif s (ts ! i) = (s', t')" and inv: "dom_inv (s, ts)"
  shows "dom_inv (s', ts[i := t'])"
proof -
  have ro: "request_of t' = request_of (ts ! i)"
    using request_of_step [of nh dif s "ts ! i"] st by simp
  show ?thesis
    unfolding dom_inv_def
  proof (intro allI impI, simp only: fst_conv snd_conv length_list_update)
    fix r
    assume rh: "request_handlers s' r \<noteq> None"
    from registry_step [OF st]
    show "\<exists>k<length ts. registered (ts[i := t'] ! k) \<and> request_of (ts[i := t'] ! k) = Some r"
    proof (elim disjE exE conjE)
      assume same: "request_handlers s' = request_handlers s"
        and fwd: "registered (ts ! i) \<longrightarrow> registered t' \<or>
                   (\<exists>r. request_of (ts ! i) = Some r \<and> request_handlers s r = None)"
      from inv rh same obtain k where k: "k < length ts" "registered (ts ! k)"
        "request_of (ts ! k) = Some r"
        by (auto simp: dom_inv_def)
      show ?thesis
      proof (cases "k = i")
        case True
        then have "registered t'" using fwd k rh same by auto
        then show ?thesis using True k ro i by (intro exI [of _ i]) auto
      next
        case False
        then show ?thesis using k by (intro exI [of _ k]) auto
      qed
    next
      fix r0 q
      assume t: "ts ! i = D_start r0" and t': "t' = D_registered r0"
        and upd: "request_handlers s' = (request_handlers s)(r0 \<mapsto> q)"
      show ?thesis
      proof (cases "r = r0")
        case True
        then show ?thesis using i t' by (intro exI [of _ i]) auto
      next
        case False
        then have "request_handlers s r \<noteq> None" using rh upd by auto
        then obtain k where k: "k < length ts" "registered (ts ! k)"
          "request_of (ts ! k) = Some r"
          using inv by (auto simp: dom_inv_def)
        then have "k \<noteq> i" using t by auto
        then show ?thesis using k by (intro exI [of _ k]) auto
      qed
    next
      fix r0 out
      assume t: "ts ! i = D_finally r0 out" and t': "t' = D_done r0 out"
        and upd: "request_handlers s' = (request_handlers s)(r0 := None)"
      have ne: "r \<noteq> r0" using rh upd by auto
      then have "request_handlers s r \<noteq> None" using rh upd by auto
      then obtain k where k: "k < length ts" "registered (ts ! k)"
        "request_of (ts ! k) = Some r"
        using inv by (auto simp: dom_inv_def)
      then have "k \<noteq> i" using t ne by auto
      then show ?thesis using k by (intro exI [of _ k]) auto
    qed
  qed
qed

lemma visible_published:
  assumes "vis_inv (s, ts)" and "visible (s, ts) r"
  obtains j where "j < length ts" "published (ts ! j)" "request_of (ts ! j) = Some r"
  using assms unfolding vis_inv_def by auto

lemma vis_inv_step:
  assumes i: "i < length ts"
    and st: "thread_step nh dif s (ts ! i) = (s', t')" and inv: "vis_inv (s, ts)"
  shows "vis_inv (s', ts[i := t'])"
proof -
  have ro: "request_of t' = request_of (ts ! i)"
    using request_of_step [of nh dif s "ts ! i"] st by simp
  have pb: "published (ts ! i) \<Longrightarrow> published t'"
    using published_step [of "ts ! i" nh dif s] st by simp
  have keep: "\<exists>j<length ts. published (ts[i := t'] ! j) \<and> request_of (ts[i := t'] ! j) = Some r"
    if "visible (s, ts) r" for r
  proof -
    from inv that obtain j where j: "j < length ts" "published (ts ! j)"
      "request_of (ts ! j) = Some r"
      by (rule visible_published)
    then show ?thesis using ro pb i by (intro exI [of _ j]) (cases "j = i"; simp)
  qed
  show ?thesis
    unfolding vis_inv_def
  proof (intro allI impI, simp only: fst_conv snd_conv length_list_update)
    fix r
    assume v: "visible (s', ts[i := t']) r"
    from queue_step [OF st]
    show "\<exists>j<length ts. published (ts[i := t'] ! j) \<and> request_of (ts[i := t'] ! j) = Some r"
    proof (elim disjE exE conjE)
      assume "items (request_queue s') = items (request_queue s)" "popped t' = popped (ts ! i)"
      then have "visible (s, ts) r"
        using v i unfolding visible_def by (auto simp: nth_list_update split: if_splits)
      then show ?thesis by (rule keep)
    next
      fix r0
      assume t: "ts ! i = D_registered r0" and t': "t' = D_published r0"
        and q: "items (request_queue s') = items (request_queue s) @ [r0]"
      show ?thesis
      proof (cases "r = r0")
        case True
        then show ?thesis using i t' by (intro exI [of _ i]) simp
      next
        case False
        then have "visible (s, ts) r"
          using v i q t' unfolding visible_def by (auto simp: nth_list_update split: if_splits)
        then show ?thesis by (rule keep)
      qed
    next
      fix m x r0
      assume t: "ts ! i = A_wait m x" and t': "t' = A_popped m r0"
        and q: "items (request_queue s) = r0 # items (request_queue s')"
      have "visible (s, ts) r"
        using v i q t' unfolding visible_def by (auto simp: nth_list_update split: if_splits)
      then show ?thesis by (rule keep)
    qed
  qed
qed

lemma once_inv_step:
  assumes u: "unique_requests ts" and i: "i < length ts"
    and st: "thread_step nh dif s (ts ! i) = (s', t')"
    and vis: "vis_inv (s, ts)" and inv: "once_inv (s, ts)"
  shows "once_inv (s', ts[i := t'])"
proof -
  from inv have d: "distinct (items (request_queue s))"
    and out: "\<And>k r. k < length ts \<Longrightarrow> popped (ts ! k) = Some r \<Longrightarrow>
                r \<notin> set (items (request_queue s))"
    and one: "\<And>k j r. k < length ts \<Longrightarrow> j < length ts \<Longrightarrow> popped (ts ! k) = Some r \<Longrightarrow>
                popped (ts ! j) = Some r \<Longrightarrow> k = j"
    unfolding once_inv_def by auto
  from queue_step [OF st] show ?thesis
  proof (elim disjE exE conjE)
    assume same: "items (request_queue s') = items (request_queue s)"
      and pp: "popped t' = popped (ts ! i)"
    have eq: "popped (ts[i := t'] ! k) = popped (ts ! k)" if "k < length ts" for k
      using that pp by (cases "k = i") auto
    show ?thesis
      unfolding once_inv_def using d out one same eq by auto
  next
    fix r0
    assume t: "ts ! i = D_registered r0" and t': "t' = D_published r0"
      and q: "items (request_queue s') = items (request_queue s) @ [r0]"
    have fresh: "\<not> visible (s, ts) r0"
    proof
      assume "visible (s, ts) r0"
      with vis obtain j where j: "j < length ts" "published (ts ! j)"
        "request_of (ts ! j) = Some r0"
        by (rule visible_published)
      moreover have "request_of (ts ! i) = Some r0" using t by simp
      ultimately have "j = i" using u i unfolding unique_requests_def by blast
      then show False using j t by simp
    qed
    have eq: "popped (ts[i := t'] ! k) = popped (ts ! k)" if "k < length ts" for k
      using that t t' by (cases "k = i") auto
    have "r0 \<notin> set (items (request_queue s))"
      using fresh unfolding visible_def by auto
    moreover have "popped (ts ! k) \<noteq> Some r0" if "k < length ts" for k
      using fresh that unfolding visible_def by auto
    ultimately show ?thesis
      unfolding once_inv_def using d out one q eq by auto
  next
    fix m x r0
    assume t: "ts ! i = A_wait m x" and t': "t' = A_popped m r0"
      and q: "items (request_queue s) = r0 # items (request_queue s')"
    have d': "distinct (items (request_queue s'))" and r0: "r0 \<notin> set (items (request_queue s'))"
      using d q by auto
    have old: "popped (ts[i := t'] ! k) = popped (ts ! k)" if "k < length ts" "k \<noteq> i" for k
      using that by simp
    have new: "popped (ts[i := t'] ! i) = Some r0" using i t' by simp
    have other: "popped (ts ! k) \<noteq> Some r0" if "k < length ts" for k
      using out [OF that, of r0] q by auto
    have sub: "set (items (request_queue s')) \<subseteq> set (items (request_queue s))"
      using q by auto
    show ?thesis
      unfolding once_inv_def
    proof (intro conjI allI impI, simp_all only: fst_conv snd_conv length_list_update)
      show "distinct (items (request_queue s'))" by (rule d')
    next
      fix k r
      assume "k < length ts" "popped (ts[i := t'] ! k) = Some r"
      then show "r \<notin> set (items (request_queue s'))"
        using r0 new old out sub by (cases "k = i") auto
    next
      fix k j r
      assume "k < length ts" "j < length ts" "popped (ts[i := t'] ! k) = Some r"
        "popped (ts[i := t'] ! j) = Some r"
      then show "k = j"
        using new old other one by (cases "k = i"; cases "j = i") auto
    qed
  qed
qed

lemma store_grows:
  assumes "thread_step nh dif s t = (s', t')"
  shows "length (handler_queues s) \<le> length (handler_queues s')
       \<and> length (response_queues s) \<le> length (response_queues s')"
  using assms
  by (cases t) (auto simp: step_defs Let_def split: sum.splits list.splits option.splits if_splits)

lemma refs_ok_mono:
  assumes "refs_ok s t" "length (handler_queues s) \<le> length (handler_queues s')"
    "length (response_queues s) \<le> length (response_queues s')"
  shows "refs_ok s' t"
  using assms by (induction s t rule: refs_ok.induct) auto

lemma store_ok_step:
  assumes "store_ok s" "refs_ok s t" "thread_step nh dif s t = (s', t')"
  shows "store_ok s' \<and> refs_ok s' t'"
  using assms
  apply (cases t)
  apply (auto simp: step_defs Let_def store_ok_def Queue_def nth_append nth_list_update less_Suc_eq
      split: sum.splits list.splits option.splits if_splits)
  apply blast
  done

lemma respond_ok:
  assumes "store_ok s" "h < length (response_queues s)"
  shows "\<exists>s'. respond_with_response response h s = Inr s'
          \<and> store_ok s'
          \<and> items (response_queues s' ! h) = items (response_queues s ! h) @ [response]
          \<and> length (response_queues s') = length (response_queues s)
          \<and> handler_queues s' = handler_queues s
          \<and> request_queue s' = request_queue s
          \<and> request_handlers s' = request_handlers s
          \<and> timeout s' = timeout s
          \<and> assertions s' = assertions s"
  using assms
  by (auto simp: step_defs store_ok_def nth_list_update)

lemma run_invariant:
  assumes "P c" and "\<And>c a. P c \<Longrightarrow> P (act nh dif a c)"
  shows "P (run nh dif acts c)"
  using assms(1)
proof (induction acts arbitrary: c)
  case Nil
  then show ?case by simp
next
  case (Cons a acts)
  then show ?case by (simp add: assms(2))
qed

lemma length_act: "length (snd (act nh dif a c)) = length (snd c)"
  by (cases c; cases a) (auto split: prod.splits sum.splits)

lemma length_run: "length (snd (run nh dif acts c)) = length (snd c)"
  by (induction acts arbitrary: c) (simp_all add: length_act)

lemma respond_frame:
  assumes "respond_with_response response h s = Inr s'"
  shows "request_queue s' = request_queue s \<and> request_handlers s' = request_handlers s
       \<and> timeout s' = timeout s \<and> handler_queues s' = handler_queues s
       \<and> assertions s' = assertions s
       \<and> length (response_queues s') = length (response_queues s)"
  using assms by (auto simp: step_defs split: if_splits)

lemma good_act:
  assumes "good c"
  shows "good (act nh dif a c)"
proof (cases c)
  case (Pair s ts)
  show ?thesis
  proof (cases a)
    case (Step i)
    show ?thesis
    proof (cases "i < length ts")
      case True
      obtain s' t' where st: "thread_step nh dif s (ts ! i) = (s', t')"
        by (cases "thread_step nh dif s (ts ! i)") auto
      have ro: "request_of t' = request_of (ts ! i)"
        using request_of_step [of nh dif s "ts ! i"] st by simp
      from assms Pair have g: "unique_requests ts" "reg_inv (s, ts)" "dom_inv (s, ts)"
        "vis_inv (s, ts)" "once_inv (s, ts)"
        by (auto simp: good_def)
      have "good (s', ts[i := t'])"
        unfolding good_def
        using unique_requests_update [OF g(1) ro] reg_inv_step [OF g(1) True st g(2)]
          dom_inv_step [OF True st g(3)] vis_inv_step [OF True st g(4)]
          once_inv_step [OF g(1) True st g(4) g(5)]
        by simp
      then show ?thesis using Pair Step True st by simp
    next
      case False
      then show ?thesis using assms Pair Step by simp
    qed
  next
    case (Respond h response)
    show ?thesis
    proof (cases "respond_with_response response h s")
      case (Inl e)
      then show ?thesis using assms Pair Respond by simp
    next
      case (Inr s')
      from respond_frame [OF Inr]
      have "good (s', ts)"
        using assms Pair
        by (simp add: good_def reg_inv_def dom_inv_def vis_inv_def visible_def once_inv_def)
      then show ?thesis using assms Pair Respond Inr by simp
    qed
  qed
qed

lemma sound_act:
  assumes "sound c"
  shows "sound (act nh dif a c)"
proof (cases c)
  case (Pair s ts)
  from assms Pair have ok: "store_ok s" and refs: "\<And>k. k < length ts \<Longrightarrow> refs_ok s (ts ! k)"
    by (auto simp: sound_def)
  show ?thesis
  proof (cases a)
    case (Step i)
    show ?thesis
    proof (cases "i < length ts")
      case True
      obtain s' t' where st: "thread_step nh dif s (ts ! i) = (s', t')"
        by (cases "thread_step nh dif s (ts ! i)") auto
      from store_ok_step [OF ok refs [OF True] st]
      have ok': "store_ok s'" and new: "refs_ok s' t'" by auto
      have "refs_ok s' (ts[i := t'] ! k)" if "k < length ts" for k
        using that new refs_ok_mono [OF refs [OF that]] store_grows [OF st]
        by (cases "k = i") auto
      then have "sound (s', ts[i := t'])" using ok' by (simp add: sound_def)
      then show ?thesis using Pair Step True st by simp
    next
      case False
      then show ?thesis using assms Pair Step by simp
    qed
  next
    case (Respond h response)
    show ?thesis
    proof (cases "h < length (response_queues s)")
      case True
      from respond_ok [OF ok True, of response] obtain s' where
        s': "respond_with_response response h s = Inr s'" "store_ok s'"
        "length (response_queues s') = length (response_queues s)"
        "handler_queues s' = handler_queues s"
        by auto
      have "refs_ok s' (ts ! k)" if "k < length ts" for k
        using refs_ok_mono [OF refs [OF that], of s'] s' by simp
      then have "sound (s', ts)" using s' by (simp add: sound_def)
      then show ?thesis using Pair Respond True s' by simp
    next
      case False
      then show ?thesis using assms Pair Respond by simp
    qed
  qed
qed



lemma dispatched_mem:
  "i < length calls \<Longrightarrow> calls ! i = Dispatch r \<Longrightarrow> r \<in> set (dispatched calls)"
proof (induction calls arbitrary: i rule: dispatched.induct)
  case 1
  then show ?case by simp
next
  case (2 r' cs)
  then show ?case by (cases i) auto
next
  case (3 m t cs)
  then show ?case by (cases i) auto
qed

lemma dispatched_unique:
  "distinct (dispatched calls) \<Longrightarrow> i < length calls \<Longrightarrow> j < length calls \<Longrightarrow>
   calls ! i = Dispatch r \<Longrightarrow> calls ! j = Dispatch r \<Longrightarrow> i = j"
proof (induction calls arbitrary: i j rule: dispatched.induct)
  case 1
  then show ?case by simp
next
  case (2 r' cs)
  then show ?case
    by (cases i; cases j) (auto dest: dispatched_mem)
next
  case (3 m t cs)
  then show ?case
    by (cases i; cases j) auto
qed

lemma request_of_start:
  "request_of (start c) = Some r \<longleftrightarrow> c = Dispatch r"
  by (cases c) auto

lemma good_init:
  assumes "distinct (dispatched calls)"
  shows "good (init t calls)"
proof -
  have fresh: "registered (start c) = False" "published (start c) = False"
    "popped (start c) = None" for c :: "'a call"
    by (cases c; simp)+
  have "unique_requests (map start calls)"
    unfolding unique_requests_def
    using dispatched_unique [OF assms] by (auto simp: request_of_start)
  then show ?thesis
    by (auto simp: fresh good_def init_def BlockingHttpServer_init_def Queue_def reg_inv_def
        dom_inv_def vis_inv_def visible_def once_inv_def)
qed

lemma sound_init: "sound (init t calls)"
proof -
  have "refs_ok s (start c)" for s :: "('a, 'b, 'c) state" and c :: "'a call"
    by (cases c) auto
  then show ?thesis
    by (auto simp: sound_def init_def BlockingHttpServer_init_def Queue_def store_ok_def)
qed


lemmas good_run = run_invariant [where P = good, OF _ good_act]

lemmas sound_run = run_invariant [where P = sound, OF _ sound_act]


section \<open>Facts about every run\<close>

lemma run_append: "run nh dif (as @ bs) c = run nh dif bs (run nh dif as c)"
  by (induction as arbitrary: c) simp_all

lemma length_init: "length (snd (init t calls)) = length calls"
  by (simp add: init_def)

lemma request_of_act:
  "i < length (snd c) \<Longrightarrow> request_of (snd (act nh dif a c) ! i) = request_of (snd c ! i)"
proof (cases c)
  case (Pair s ts)
  assume i: "i < length (snd c)"
  show ?thesis
  proof (cases a)
    case (Step k)
    then show ?thesis
      using Pair i request_of_step [of nh dif s "ts ! k"]
      by (cases "k = i") (auto split: prod.splits)
  next
    case (Respond h response)
    then show ?thesis using Pair by (auto split: sum.splits)
  qed
qed

lemma request_of_run:
  "i < length (snd c) \<Longrightarrow> request_of (snd (run nh dif acts c) ! i) = request_of (snd c ! i)"
proof (induction acts arbitrary: c)
  case Nil
  then show ?case by simp
next
  case (Cons a acts)
  then show ?case by (simp add: length_act request_of_act)
qed

lemma request_of_init:
  "i < length calls \<Longrightarrow> calls ! i = Dispatch r \<Longrightarrow>
   request_of (snd (run nh dif acts (init t calls)) ! i) = Some r"
  by (simp add: request_of_run length_init) (simp add: init_def)

lemma finished_act:
  assumes "i < length (snd c)" "snd c ! i = A_done m ro out"
  shows "snd (act nh dif a c) ! i = A_done m ro out"
proof (cases c)
  case (Pair s ts)
  show ?thesis
  proof (cases a)
    case (Step k)
    then show ?thesis
      using Pair assms by (cases "k = i") (auto simp: thread_step_def split: prod.splits)
  next
    case (Respond h response)
    then show ?thesis using Pair assms by (auto split: sum.splits)
  qed
qed

lemma finished_run:
  "i < length (snd c) \<Longrightarrow> snd c ! i = A_done m ro out \<Longrightarrow>
   snd (run nh dif acts c) ! i = A_done m ro out"
proof (induction acts arbitrary: c)
  case Nil
  then show ?case by simp
next
  case (Cons a acts)
  then show ?case by (simp add: length_act finished_act)
qed

lemma good_reachable:
  "distinct (dispatched calls) \<Longrightarrow> good (run nh dif acts (init t calls))"
  by (rule good_run [OF good_init])

lemma sound_reachable: "sound (run nh dif acts (init t calls))"
  by (rule sound_run [OF sound_init])

lemma length_reachable: "length (snd (run nh dif acts (init t calls))) = length calls"
  by (simp add: length_run length_init)


lemma popped_step:
  "popped t = Some r \<Longrightarrow> popped (snd (thread_step nh dif s t)) = Some r"
  by (cases t) (auto simp: step_defs Let_def split: sum.splits list.splits option.splits if_splits)

lemma popped_act:
  assumes "i < length (snd c)" "popped (snd c ! i) = Some r"
  shows "popped (snd (act nh dif a c) ! i) = Some r"
proof (cases c)
  case (Pair s ts)
  show ?thesis
  proof (cases a)
    case (Step k)
    then show ?thesis
      using Pair assms popped_step [of "ts ! k" r nh dif s]
      by (cases "k = i") (auto split: prod.splits)
  next
    case (Respond h response)
    then show ?thesis using Pair assms by (auto split: sum.splits)
  qed
qed

lemma popped_run:
  "i < length (snd c) \<Longrightarrow> popped (snd c ! i) = Some r \<Longrightarrow>
   popped (snd (run nh dif acts c) ! i) = Some r"
proof (induction acts arbitrary: c)
  case Nil
  then show ?case by simp
next
  case (Cons a acts)
  then show ?case by (simp add: length_act popped_act)
qed

lemma no_entry_after_dispatch:
  assumes "distinct (dispatched calls)" and "i < length calls"
    and "snd (run nh dif acts (init t calls)) ! i = D_done r out"
  shows "request_handlers (fst (run nh dif acts (init t calls))) r = None"
proof (rule ccontr)
  let ?c = "run nh dif acts (init t calls)"
  assume "request_handlers (fst ?c) r \<noteq> None"
  moreover have g: "good ?c" using assms(1) by (rule good_reachable)
  ultimately obtain k where k: "k < length (snd ?c)" "registered (snd ?c ! k)"
    "request_of (snd ?c ! k) = Some r"
    unfolding good_def dom_inv_def by blast
  have "request_of (snd ?c ! i) = Some r" using assms(3) by simp
  with g k assms(2) have "k = i"
    unfolding good_def unique_requests_def by (simp add: length_reachable)
  with k(2) assms(3) show False by simp
qed





section \<open>The claims\<close>

lemmas run_defs = init_def BlockingHttpServer_init_def Queue_def step_defs
  example_nohandler_def example_difference_def no_response_def timed_out_def does_not_match_def

text \<open>
  C1. When \<^verbatim>\<open>assert_request\<close> pops a request whose dictionary entry is gone, because
  the \<^verbatim>\<open>dispatch\<close> call of that request has timed out waiting for a handler and has
  deleted the entry, delivering the new handler should be a no-op that raises nothing.
  The source indexes the dictionary at line 118 without a guard: with a server timeout
  of 0, \<^verbatim>\<open>dispatch(7)\<close> runs to its end (thread 0, five steps), the request stays in
  the request queue, and the \<^verbatim>\<open>assert_request\<close> call that pops it (thread 1) ends by
  raising \<^verbatim>\<open>KeyError\<close>, although its matcher accepts the request.
\<close>

theorem assert_request_raises_KeyError_after_dispatch_gave_up:
  "run example_nohandler example_difference
     [Step 0, Step 0, Step 0, Step 0, Step 0, Step 1, Step 1]
     (init (Some 0) [Dispatch 7, Assert_request True None])
   = (\<lparr>timeout = 0, request_queue = \<lparr>maxsize = 0, items = []\<rparr>,
       request_handlers = Map.empty, assertions = [],
       handler_queues = [\<lparr>maxsize = 0, items = []\<rparr>],
       response_queues = [\<lparr>maxsize = 0, items = []\<rparr>]\<rparr>,
      [D_done 7 (Inr 500), A_done True (Some 7) (Inl (KeyError 7))])"
  by (simp add: run_defs)

text \<open>
  C2. When a handler has been assigned and the wait on its response queue times out,
  \<^verbatim>\<open>dispatch\<close> is specified to record the failure and to return an error response
  instead of raising. The source records the failure with \<^verbatim>\<open>add_assertion\<close> and then
  raises the same \<^verbatim>\<open>AssertionError\<close>, as its docstring says: the call below ends with
  the exception, not with a response.
\<close>

theorem dispatch_no_response_counterexample:
  "run example_nohandler example_difference
     [Step 0, Step 0, Step 0, Step 1, Step 1, Step 1, Step 0, Step 0, Step 0]
     (init None [Dispatch 7, Assert_request True None])
   = (\<lparr>timeout = 30, request_queue = \<lparr>maxsize = 0, items = []\<rparr>,
       request_handlers = Map.empty,
       assertions = [AssertionError [Lit ''No response for request: '', Request_repr 7]],
       handler_queues = [\<lparr>maxsize = 0, items = []\<rparr>],
       response_queues = [\<lparr>maxsize = 0, items = []\<rparr>]\<rparr>,
      [D_done 7 (Inl (AssertionError [Lit ''No response for request: '', Request_repr 7])),
       A_done True (Some 7) (Inr 0)])"
  by (simp add: run_defs)

text \<open>
  C2, as the source has it. In every run in which each request is dispatched once: when
  the wait of a \<^verbatim>\<open>dispatch\<close> call on the response queue of its handler times out, the
  call appends the \<^verbatim>\<open>AssertionError\<close> "No response for request" to \<open>assertions\<close>
  and leaves the \<^verbatim>\<open>try\<close> block raising that exception; and a call that leaves the
  \<^verbatim>\<open>try\<close> block raising an exception ends, after the \<^verbatim>\<open>finally\<close> block, by raising
  it to its caller, \<open>assertions\<close> unchanged.
\<close>

theorem dispatch_no_response_records_and_raises:
  assumes "distinct (dispatched calls)" and "i < length calls"
  shows "(snd (run nh dif acts (init t calls)) ! i = D_await_response r h x \<longrightarrow>
          0 \<le> x \<longrightarrow> items (response_queues (fst (run nh dif acts (init t calls))) ! h) = [] \<longrightarrow>
          act nh dif (Step i) (run nh dif acts (init t calls))
            = (add_assertion (no_response r) (fst (run nh dif acts (init t calls))),
               (snd (run nh dif acts (init t calls)))[i := D_finally r (Inl (no_response r))]))
       \<and> (snd (run nh dif acts (init t calls)) ! i = D_finally r (Inl e) \<longrightarrow>
          snd (act nh dif (Step i) (run nh dif acts (init t calls))) ! i = D_done r (Inl e)
          \<and> assertions (fst (act nh dif (Step i) (run nh dif acts (init t calls))))
            = assertions (fst (run nh dif acts (init t calls))))"
proof -
  let ?c = "run nh dif acts (init t calls)"
  obtain s ts where c: "?c = (s, ts)" by (cases ?c) auto
  have len: "length ts = length calls" using length_reachable [of nh dif acts t calls] c by simp
  have g: "good (s, ts)" using good_reachable [OF assms(1), of nh dif acts t] c by simp
  have a: "act nh dif (Step i) (s, ts)
           = (add_assertion (no_response r) s, ts[i := D_finally r (Inl (no_response r))])"
    if "ts ! i = D_await_response r h x" "0 \<le> x" "items (response_queues s ! h) = []"
    using that assms(2) len by (simp add: thread_step_def Queue_get_def)
  have b: "snd (act nh dif (Step i) (s, ts)) ! i = D_done r (Inl e)
         \<and> assertions (fst (act nh dif (Step i) (s, ts))) = assertions s"
    if "ts ! i = D_finally r (Inl e)"
  proof -
    have "request_handlers s r \<noteq> None"
      using g that assms(2) len unfolding good_def reg_inv_def by simp
    then show ?thesis using that assms(2) len by (auto simp: thread_step_def)
  qed
  show ?thesis unfolding c using a b by simp
qed

theorem dispatch_no_response_records_and_raises_witness:
  "distinct (dispatched [Dispatch 7, Assert_request True None])
   \<and> snd (run example_nohandler example_difference
        [Step 0, Step 0, Step 0, Step 1, Step 1, Step 1, Step 0]
        (init None [Dispatch 7, Assert_request True None])) ! 0 = D_await_response 7 0 30
   \<and> act example_nohandler example_difference (Step 0)
       (run example_nohandler example_difference
         [Step 0, Step 0, Step 0, Step 1, Step 1, Step 1, Step 0]
         (init None [Dispatch 7, Assert_request True None]))
     = (\<lparr>timeout = 30, request_queue = \<lparr>maxsize = 0, items = []\<rparr>,
         request_handlers = [7 \<mapsto> 0], assertions = [no_response 7],
         handler_queues = [\<lparr>maxsize = 0, items = []\<rparr>],
         response_queues = [\<lparr>maxsize = 0, items = []\<rparr>]\<rparr>,
        [D_finally 7 (Inl (no_response 7)), A_done True (Some 7) (Inr 0)])"
  using dispatch_no_response_records_and_raises [of "[Dispatch 7, Assert_request True None]" 0
      example_nohandler example_difference
      "[Step 0, Step 0, Step 0, Step 1, Step 1, Step 1, Step 0]" None 7 0 30]
  by (simp add: run_defs)

text \<open>
  C3. Whatever way a \<^verbatim>\<open>dispatch(request)\<close> call ends (a response was delivered, no
  handler came in time, no response came in time, or an exception passed through), the
  \<^verbatim>\<open>finally\<close> block has removed the dictionary entry of the request. The call ends
  only by the step of the \<^verbatim>\<open>finally\<close> block, and that step leaves no entry for the
  request. A \<^verbatim>\<open>Request\<close> object is made for one connection and dispatched once; in
  every run in which that is so, a \<^verbatim>\<open>dispatch\<close> call that has ended has no entry for
  its request in \<open>request_handlers\<close>, however the other threads have run since.
\<close>

theorem dispatch_removes_registry_entry:
  "request_handlers (fst (dispatch nh s (D_finally r out))) r = None
   \<and> (\<exists>out'. snd (dispatch nh s (D_finally r out)) = D_done r out')
   \<and> (snd (dispatch nh s th) = D_done r out \<longrightarrow>
        th = D_done r out \<or> (\<exists>out'. th = D_finally r out'))
   \<and> (distinct (dispatched calls) \<longrightarrow> i < length calls \<longrightarrow>
        snd (run nh dif acts (init t calls)) ! i = D_done r out \<longrightarrow>
        request_handlers (fst (run nh dif acts (init t calls))) r = None)"
proof (intro conjI)
  show "request_handlers (fst (dispatch nh s (D_finally r out))) r = None"
    by (cases "request_handlers s r") simp_all
  show "\<exists>out'. snd (dispatch nh s (D_finally r out)) = D_done r out'"
    by (cases "request_handlers s r") simp_all
  show "snd (dispatch nh s th) = D_done r out \<longrightarrow>
        th = D_done r out \<or> (\<exists>out'. th = D_finally r out')"
    by (cases th)
      (auto simp: step_defs Let_def split: sum.splits list.splits option.splits if_splits)
  show "distinct (dispatched calls) \<longrightarrow> i < length calls \<longrightarrow>
        snd (run nh dif acts (init t calls)) ! i = D_done r out \<longrightarrow>
        request_handlers (fst (run nh dif acts (init t calls))) r = None"
    using no_entry_after_dispatch by blast
qed

theorem dispatch_removes_registry_entry_witness:
  "distinct (dispatched [Dispatch 7, Assert_request True None])
   \<and> snd (run example_nohandler example_difference
        [Step 0, Step 0, Step 0, Step 1, Step 1, Step 1, Respond 0 200, Step 0, Step 0, Step 0]
        (init None [Dispatch 7, Assert_request True None])) ! 0 = D_done 7 (Inr 200)
   \<and> request_handlers (fst (run example_nohandler example_difference
        [Step 0, Step 0, Step 0, Step 1, Step 1, Step 1, Respond 0 200, Step 0, Step 0, Step 0]
        (init None [Dispatch 7, Assert_request True None]))) 7 = None"
  using dispatch_removes_registry_entry [of example_nohandler
      "BlockingHttpServer_init None" 7 "Inr 200" "D_done 7 (Inr 200)"
      "[Dispatch 7, Assert_request True None]" 0 example_difference
      "[Step 0, Step 0, Step 0, Step 1, Step 1, Step 1, Respond 0 200, Step 0, Step 0, Step 0]"
      None]
  by (simp add: run_defs)

text \<open>
  C4. A request is received by at most one \<^verbatim>\<open>assert_request\<close> call: in every run in
  which each request is dispatched once, two calls that have popped the same request
  from the request queue are the same call. In particular no two calls that return a
  handler do so for the same request.
\<close>

theorem request_popped_by_one_call_only:
  assumes "distinct (dispatched calls)" and "i < length calls" and "j < length calls"
    and "popped (snd (run nh dif acts (init t calls)) ! i) = Some r"
    and "popped (snd (run nh dif acts (init t calls)) ! j) = Some r"
  shows "i = j"
proof -
  let ?c = "run nh dif acts (init t calls)"
  have "good ?c" using assms(1) by (rule good_reachable)
  then have "once_inv ?c" by (simp add: good_def)
  then show ?thesis
    using assms(2-5) unfolding once_inv_def by (simp add: length_reachable)
qed

theorem request_popped_by_one_call_only_witness:
  "distinct (dispatched [Dispatch 7, Assert_request True None, Assert_request True None])
   \<and> popped (snd (run example_nohandler example_difference
        [Step 0, Step 0, Step 1, Step 2, Step 1, Step 1]
        (init None [Dispatch 7, Assert_request True None, Assert_request True None])) ! 1) = Some 7
   \<and> snd (run example_nohandler example_difference
        [Step 0, Step 0, Step 1, Step 2, Step 1, Step 1]
        (init None [Dispatch 7, Assert_request True None, Assert_request True None]))
     = [D_published 7, A_done True (Some 7) (Inr 0), A_done True None (Inl (timed_out True))]"
  using request_popped_by_one_call_only
    [of "[Dispatch 7, Assert_request True None, Assert_request True None]" 1 1
      example_nohandler example_difference
      "[Step 0, Step 0, Step 1, Step 2, Step 1, Step 1]" None 7]
  by (simp add: run_defs)


text \<open>
  Up to the end of the \<^verbatim>\<open>dispatch\<close> call the order of lines 139 and 141 does what
  it is meant to. A request is visible to the test thread when it is in the request
  queue or has been popped by an \<^verbatim>\<open>assert_request\<close> call. In every run in which each
  request is dispatched once, a visible request is one whose \<^verbatim>\<open>dispatch\<close> call is
  past line 141, and as long as that call has not ended the request has its entry in
  \<open>request_handlers\<close>.
\<close>

theorem registered_before_published:
  assumes "distinct (dispatched calls)" and "i < length calls" and "calls ! i = Dispatch r"
    and "visible (run nh dif acts (init t calls)) r"
  shows "published (snd (run nh dif acts (init t calls)) ! i)
       \<and> ((\<exists>out. snd (run nh dif acts (init t calls)) ! i = D_done r out)
          \<or> request_handlers (fst (run nh dif acts (init t calls))) r \<noteq> None)"
proof -
  let ?c = "run nh dif acts (init t calls)"
  have g: "good ?c" using assms(1) by (rule good_reachable)
  have ri: "request_of (snd ?c ! i) = Some r"
    using assms(2,3) by (rule request_of_init)
  from g assms(4) obtain j where j: "j < length (snd ?c)" "published (snd ?c ! j)"
    "request_of (snd ?c ! j) = Some r"
    unfolding good_def vis_inv_def by blast
  with g ri assms(2) have "j = i"
    unfolding good_def unique_requests_def by (simp add: length_reachable)
  with j have pub: "published (snd ?c ! i)" by simp
  have "registered (snd ?c ! i) \<or> (\<exists>out. snd ?c ! i = D_done r out)"
    using pub ri by (cases "snd ?c ! i") auto
  moreover have "request_handlers (fst ?c) r \<noteq> None" if "registered (snd ?c ! i)"
    using g that ri assms(2) unfolding good_def reg_inv_def by (simp add: length_reachable)
  ultimately show ?thesis using pub by blast
qed

theorem registered_before_published_witness:
  "distinct (dispatched [Dispatch 7, Assert_request True None])
   \<and> visible (run example_nohandler example_difference [Step 0, Step 0]
        (init None [Dispatch 7, Assert_request True None])) 7
   \<and> run example_nohandler example_difference [Step 0, Step 0]
        (init None [Dispatch 7, Assert_request True None])
     = (\<lparr>timeout = 30, request_queue = \<lparr>maxsize = 0, items = [7]\<rparr>,
         request_handlers = [7 \<mapsto> 0], assertions = [],
         handler_queues = [\<lparr>maxsize = 0, items = []\<rparr>],
         response_queues = []\<rparr>,
        [D_published 7, A_wait True 30])"
  using registered_before_published [of "[Dispatch 7, Assert_request True None]" 0 7
      example_nohandler example_difference "[Step 0, Step 0]" None]
  by (simp add: run_defs visible_def)

text \<open>
  C6. When the request that an \<^verbatim>\<open>assert_request\<close> call popped differs from the
  expectation, the call should put the response of \<^verbatim>\<open>respond_nohandler\<close> into the
  response queue of the new handler and then raise the request-does-not-match error,
  whose message holds the difference. Lines 120 to 122 do so, but line 118 comes first:
  when the \<^verbatim>\<open>dispatch\<close> call of the request has given up and deleted the entry, as in
  the run of C1, a call whose matcher rejects the request ends by raising
  \<^verbatim>\<open>KeyError\<close>; nothing is put into the response queue of the handler and no
  request-does-not-match error is raised.
\<close>

theorem mismatch_raises_KeyError_after_dispatch_gave_up:
  "run example_nohandler example_difference
     [Step 0, Step 0, Step 0, Step 0, Step 0, Step 1, Step 1]
     (init (Some 0) [Dispatch 7, Assert_request False None])
   = (\<lparr>timeout = 0, request_queue = \<lparr>maxsize = 0, items = []\<rparr>,
       request_handlers = Map.empty, assertions = [],
       handler_queues = [\<lparr>maxsize = 0, items = []\<rparr>],
       response_queues = [\<lparr>maxsize = 0, items = []\<rparr>]\<rparr>,
      [D_done 7 (Inr 500), A_done False (Some 7) (Inl (KeyError 7))])
   \<and> example_difference False 7 = [''uri'']"
  by (simp add: run_defs)

text \<open>
  Whenever line 118 has found the entry, the source does what is expected of a
  mismatch. In every run: the step after the pop delivers a new handler and keeps the
  difference of the matcher, and the step of a call that holds a non-empty difference
  appends the response of \<^verbatim>\<open>respond_nohandler\<close> to the response queue of the handler,
  which ends the wait of a \<^verbatim>\<open>dispatch\<close> call on this handler, and ends the call with
  the request-does-not-match error; the handler is not returned.
\<close>

theorem mismatch_responds_then_raises:
  assumes "i < length calls"
  shows "(snd (run nh dif acts (init t calls)) ! i = A_popped m r \<longrightarrow>
          request_handlers (fst (run nh dif acts (init t calls))) r \<noteq> None \<longrightarrow>
          snd (act nh dif (Step i) (run nh dif acts (init t calls))) ! i
            = A_delivered m r (length (response_queues (fst (run nh dif acts (init t calls)))))
                (dif m r))
       \<and> (snd (run nh dif acts (init t calls)) ! i = A_delivered m r h diff \<longrightarrow> diff \<noteq> [] \<longrightarrow>
          snd (act nh dif (Step i) (run nh dif acts (init t calls))) ! i
            = A_done m (Some r) (Inl (does_not_match m diff))
          \<and> items (response_queues (fst (act nh dif (Step i) (run nh dif acts (init t calls)))) ! h)
            = items (response_queues (fst (run nh dif acts (init t calls))) ! h) @ [nh r]
          \<and> (\<forall>r' x. 0 \<le> x \<longrightarrow>
               (\<exists>response. snd (dispatch nh (fst (act nh dif (Step i) (run nh dif acts (init t calls))))
                      (D_await_response r' h x)) = D_finally r' (Inr response))))"
proof -
  let ?c = "run nh dif acts (init t calls)"
  obtain s ts where c: "?c = (s, ts)" by (cases ?c) auto
  have len: "length ts = length calls" using length_reachable [of nh dif acts t calls] c by simp
  have snd: "sound (s, ts)" using sound_reachable [of nh dif acts t calls] c by simp
  then have ok: "store_ok s" and refs: "refs_ok s (ts ! i)"
    using assms len by (auto simp: sound_def)
  have a: "snd (act nh dif (Step i) (s, ts)) ! i = A_delivered m r (length (response_queues s)) (dif m r)"
    if "ts ! i = A_popped m r" "request_handlers s r \<noteq> None"
  proof -
    from that(2) obtain q where q: "request_handlers s r = Some q" by auto
    then have "q < length (handler_queues s)" using ok by (auto simp: store_ok_def)
    then have "maxsize (handler_queues s ! q) = 0" using ok by (auto simp: store_ok_def)
    then show ?thesis
      using that(1) q assms len by (simp add: step_defs)
  qed
  have b: "snd (act nh dif (Step i) (s, ts)) ! i = A_done m (Some r) (Inl (does_not_match m diff))
         \<and> items (response_queues (fst (act nh dif (Step i) (s, ts))) ! h)
           = items (response_queues s ! h) @ [nh r]
         \<and> (\<forall>r' x. 0 \<le> x \<longrightarrow>
               (\<exists>response. snd (dispatch nh (fst (act nh dif (Step i) (s, ts)))
                      (D_await_response r' h x)) = D_finally r' (Inr response)))"
    if "ts ! i = A_delivered m r h diff" "diff \<noteq> []"
  proof -
    have h: "h < length (response_queues s)" using refs that(1) by simp
    from respond_ok [OF ok h, of "nh r"] obtain s' where
      s': "respond_with_response (nh r) h s = Inr s'"
      "items (response_queues s' ! h) = items (response_queues s ! h) @ [nh r]"
      by auto
    have st: "act nh dif (Step i) (s, ts) = (s', ts[i := A_done m (Some r) (Inl (does_not_match m diff))])"
      using that s' assms len by (simp add: thread_step_def)
    have "\<exists>response. snd (dispatch nh s' (D_await_response r' h x)) = D_finally r' (Inr response)"
      if "0 \<le> x" for r' x
      using that s'(2) by (cases "items (response_queues s ! h)") (simp_all add: Queue_get_def)
    then show ?thesis using st s'(2) assms len by simp
  qed
  show ?thesis unfolding c using a b by simp
qed

theorem mismatch_responds_then_raises_witness:
  "snd (run example_nohandler example_difference [Step 0, Step 0, Step 0, Step 1, Step 1]
      (init None [Dispatch 7, Assert_request False None])) ! 1 = A_delivered False 7 0 [''uri'']
   \<and> act example_nohandler example_difference (Step 1)
       (run example_nohandler example_difference [Step 0, Step 0, Step 0, Step 1, Step 1]
         (init None [Dispatch 7, Assert_request False None]))
     = (\<lparr>timeout = 30, request_queue = \<lparr>maxsize = 0, items = []\<rparr>,
         request_handlers = [7 \<mapsto> 0], assertions = [],
         handler_queues = [\<lparr>maxsize = 0, items = [0]\<rparr>],
         response_queues = [\<lparr>maxsize = 0, items = [500]\<rparr>]\<rparr>,
        [D_await_handler 7 0 30, A_done False (Some 7) (Inl (does_not_match False [''uri'']))])"
  using mismatch_responds_then_raises [of 1 "[Dispatch 7, Assert_request False None]"
      example_nohandler example_difference "[Step 0, Step 0, Step 0, Step 1, Step 1]" None
      False 7 0 "[''uri'']"]
  by (simp add: run_defs)

text \<open>
  C7. \<^verbatim>\<open>assert_request\<close> raises the no-request-arrived error, the
  \<^verbatim>\<open>AssertionError\<close> whose message is "Waiting for request", the matcher and
  "timed out", exactly when its wait on the request queue times out, that is when
  \<^verbatim>\<open>get\<close> raises \<^verbatim>\<open>Empty\<close>: the timeout is not negative and the queue is empty
  when the wait ends. The call then ends with that error and changes nothing. No later
  step of the call raises this error.
\<close>

theorem wait_timed_out_iff_queue_empty:
  "((\<exists>ro. snd (assert_request nh dif s (A_wait m t))
          = A_done m ro (Inl (AssertionError
              [Lit ''Waiting for request '', Matcher_repr m, Lit '' timed out''])))
      = ((Queue_get t (request_queue s) :: ('m, 'd) exn + request \<times> request queue) = Inl Empty))
   \<and> (((Queue_get t (request_queue s) :: ('m, 'd) exn + request \<times> request queue) = Inl Empty)
      = (0 \<le> t \<and> items (request_queue s) = []))
   \<and> (0 \<le> t \<longrightarrow> items (request_queue s) = [] \<longrightarrow>
        assert_request nh dif s (A_wait m t)
          = (s, A_done m None (Inl (AssertionError
              [Lit ''Waiting for request '', Matcher_repr m, Lit '' timed out'']))))
   \<and> snd (assert_request nh dif s (A_popped m r))
        \<noteq> A_done m' ro' (Inl (AssertionError
              [Lit ''Waiting for request '', Matcher_repr m'', Lit '' timed out'']))
   \<and> snd (assert_request nh dif s (A_delivered m r h diff))
        \<noteq> A_done m' ro' (Inl (AssertionError
              [Lit ''Waiting for request '', Matcher_repr m'', Lit '' timed out'']))"
  for s :: "('m, 'd, 'resp) state"
proof (intro conjI)
  show "(\<exists>ro. snd (assert_request nh dif s (A_wait m t))
          = A_done m ro (Inl (AssertionError
              [Lit ''Waiting for request '', Matcher_repr m, Lit '' timed out''])))
      = ((Queue_get t (request_queue s) :: ('m, 'd) exn + request \<times> request queue) = Inl Empty)"
    by (auto simp: Queue_get_def timed_out_def split: list.splits)
  show "((Queue_get t (request_queue s) :: ('m, 'd) exn + request \<times> request queue) = Inl Empty)
      = (0 \<le> t \<and> items (request_queue s) = [])"
    by (auto simp: Queue_get_def split: list.splits)
  show "0 \<le> t \<longrightarrow> items (request_queue s) = [] \<longrightarrow>
        assert_request nh dif s (A_wait m t)
          = (s, A_done m None (Inl (AssertionError
              [Lit ''Waiting for request '', Matcher_repr m, Lit '' timed out''])))"
    by (auto simp: Queue_get_def timed_out_def)
  show "snd (assert_request nh dif s (A_popped m r))
        \<noteq> A_done m' ro' (Inl (AssertionError
              [Lit ''Waiting for request '', Matcher_repr m'', Lit '' timed out'']))"
    by (auto simp: step_defs Let_def split: option.splits if_splits)
  show "snd (assert_request nh dif s (A_delivered m r h diff))
        \<noteq> A_done m' ro' (Inl (AssertionError
              [Lit ''Waiting for request '', Matcher_repr m'', Lit '' timed out'']))"
    by (auto simp: step_defs does_not_match_def split: if_splits)
qed

theorem wait_timed_out_iff_queue_empty_witness:
  "assert_request example_nohandler example_difference
         (BlockingHttpServer_init None :: (bool, string, nat) state) (A_wait True 30)
     = (BlockingHttpServer_init None,
        A_done True None (Inl (AssertionError
           [Lit ''Waiting for request '', Matcher_repr True, Lit '' timed out''])))
   \<and> (Queue_get 30 (request_queue (BlockingHttpServer_init None :: (bool, string, nat) state))
        :: (bool, string) exn + request \<times> request queue) = Inl Empty"
  using wait_timed_out_iff_queue_empty [of example_nohandler example_difference
      "BlockingHttpServer_init None :: (bool, string, nat) state" True 30]
  by (simp add: run_defs)

text \<open>
  C8. \<^verbatim>\<open>respond_with_response\<close> never blocks and never fails: the response queue of
  a handler is a \<^verbatim>\<open>Queue()\<close> without a bound, written with \<^verbatim>\<open>put_nowait\<close>. In every
  run, whatever has been put into or taken from the queues before, also by earlier
  calls on the same handler, and wherever the \<^verbatim>\<open>dispatch\<close> call of the request has
  got to, the call on any handler that exists returns normally and appends the response
  to the handler's queue; and every handler that \<^verbatim>\<open>assert_request\<close> has returned
  exists.
\<close>

theorem respond_with_response_always_returns:
  "(\<forall>h<length (response_queues (fst (run nh dif acts (init t calls)))).
      \<exists>s'. respond_with_response response h (fst (run nh dif acts (init t calls))) = Inr s'
         \<and> items (response_queues s' ! h)
           = items (response_queues (fst (run nh dif acts (init t calls))) ! h) @ [response])
   \<and> (\<forall>i<length calls. \<forall>m ro h.
        snd (run nh dif acts (init t calls)) ! i = A_done m ro (Inr h) \<longrightarrow>
        h < length (response_queues (fst (run nh dif acts (init t calls)))))"
proof -
  let ?c = "run nh dif acts (init t calls)"
  have s: "sound ?c" by (rule sound_reachable)
  then have ok: "store_ok (fst ?c)" by (simp add: sound_def)
  have "\<exists>s'. respond_with_response response h (fst ?c) = Inr s'
         \<and> items (response_queues s' ! h) = items (response_queues (fst ?c) ! h) @ [response]"
    if "h < length (response_queues (fst ?c))" for h
    using respond_ok [OF ok that, of response] by blast
  moreover have "h < length (response_queues (fst ?c))"
    if "i < length calls" "snd ?c ! i = A_done m ro (Inr h)" for i m ro h
  proof -
    have "refs_ok (fst ?c) (snd ?c ! i)"
      using s that(1) by (simp add: sound_def length_reachable)
    then show ?thesis using that(2) by simp
  qed
  ultimately show ?thesis by blast
qed

theorem respond_with_response_always_returns_witness:
  "run example_nohandler example_difference
     [Step 0, Step 0, Step 0, Step 1, Step 1, Step 1, Step 0, Step 0, Step 0, Respond 0 200]
     (init (Some 1) [Dispatch 7, Assert_request True None])
   = (\<lparr>timeout = 1, request_queue = \<lparr>maxsize = 0, items = []\<rparr>,
       request_handlers = Map.empty, assertions = [no_response 7],
       handler_queues = [\<lparr>maxsize = 0, items = []\<rparr>],
       response_queues = [\<lparr>maxsize = 0, items = [200]\<rparr>]\<rparr>,
      [D_done 7 (Inl (no_response 7)), A_done True (Some 7) (Inr 0)])
   \<and> (\<exists>s'. respond_with_response 201 0
          (fst (run example_nohandler example_difference
             [Step 0, Step 0, Step 0, Step 1, Step 1, Step 1, Step 0, Step 0, Step 0, Respond 0 200]
             (init (Some 1) [Dispatch 7, Assert_request True None]))) = Inr s'
        \<and> items (response_queues s' ! 0) = [200, 201])"
  using respond_with_response_always_returns [of example_nohandler example_difference
      "[Step 0, Step 0, Step 0, Step 1, Step 1, Step 1, Step 0, Step 0, Step 0, Respond 0 200]"
      "Some 1" "[Dispatch 7, Assert_request True None]" 201]
  by (simp add: run_defs)



text \<open>
  C10. A request that an \<^verbatim>\<open>assert_request\<close> call has popped stays consumed, whether
  the matcher accepted it or rejected it with a non-empty difference: the call never
  puts it back.
  In every run in which each request is dispatched once, and however the run goes on,
  the call still holds the request, the request is not in the request queue, and no
  other \<^verbatim>\<open>assert_request\<close> call holds it.
\<close>

theorem popped_request_is_never_seen_again:
  assumes "distinct (dispatched calls)" and "i < length calls"
    and "popped (snd (run nh dif acts (init t calls)) ! i) = Some r"
  shows "popped (snd (run nh dif (acts @ later) (init t calls)) ! i) = Some r
       \<and> r \<notin> set (items (request_queue (fst (run nh dif (acts @ later) (init t calls)))))
       \<and> (\<forall>j<length calls.
            popped (snd (run nh dif (acts @ later) (init t calls)) ! j) = Some r \<longrightarrow> j = i)"
proof -
  let ?c = "run nh dif (acts @ later) (init t calls)"
  have p: "popped (snd ?c ! i) = Some r"
    using assms(2,3) by (simp add: run_append popped_run length_reachable)
  have "good ?c" using assms(1) by (rule good_reachable)
  then have "once_inv ?c" by (simp add: good_def)
  then show ?thesis
    using p assms(2) unfolding once_inv_def by (simp add: length_reachable)
qed

theorem popped_request_is_never_seen_again_witness:
  "distinct (dispatched [Dispatch 7, Assert_request False None, Assert_request True None])
   \<and> popped (snd (run example_nohandler example_difference
        [Step 0, Step 0, Step 1, Step 1, Step 1]
        (init None [Dispatch 7, Assert_request False None, Assert_request True None])) ! 1)
     = Some 7
   \<and> run example_nohandler example_difference
        [Step 0, Step 0, Step 1, Step 1, Step 1, Step 2, Step 0, Step 0, Step 0, Step 0]
        (init None [Dispatch 7, Assert_request False None, Assert_request True None])
     = (\<lparr>timeout = 30, request_queue = \<lparr>maxsize = 0, items = []\<rparr>,
         request_handlers = Map.empty, assertions = [],
         handler_queues = [\<lparr>maxsize = 0, items = []\<rparr>],
         response_queues = [\<lparr>maxsize = 0, items = []\<rparr>]\<rparr>,
        [D_done 7 (Inr 500),
         A_done False (Some 7) (Inl (does_not_match False [''uri''])),
         A_done True None (Inl (timed_out True))])"
  using popped_request_is_never_seen_again
    [of "[Dispatch 7, Assert_request False None, Assert_request True None]" 1
      example_nohandler example_difference
      "[Step 0, Step 0, Step 1, Step 1, Step 1]" None 7
      "[Step 2, Step 0, Step 0, Step 0, Step 0]"]
  by (simp add: run_defs)

end
